theory Spec2Isabelle
  imports Complex_Main
begin

section \<open>Colorbin: binning quantities into palette colours\<close>

text \<open>
  A shallow embedding of the class \<open>Colorbin\<close> of \<open>chorogrid/Chorogrid.py\<close>, read as
  Python 3 (\<open>/\<close> is true division).

  Numbers. A Python float that is not NaN is represented by the rational number it
  denotes, and every arithmetic operation on such numbers is exact: rounding error,
  overflow and the infinities are outside this model. An input quantity is a \<open>pynum\<close>,
  so that NaN entries can be given and filtered out as the constructor does.
  The constructor calls \<open>np.isnan\<close>; the module never imports \<open>np\<close>, which is taken
  to be numpy here.

  Strings. A Python \<open>str\<close> is a \<open>string\<close> whose characters are code points below 256.

  Errors. Every exception the modelled code can raise is a value of \<open>py_error\<close>, and a
  method that can raise returns \<open>py_error + 'a\<close> with \<open>Inl\<close> for the exception.
  The specification's \<open>EmptyInputError\<close> is the \<open>ValueError\<close> of \<open>min\<close> on an empty
  list; its \<open>MalformedColorError\<close> is the \<open>ValueError\<close> of \<open>int(s, 16)\<close>.
\<close>

datatype py_error = ValueError | ZeroDivisionError | IndexError | UnboundLocalError

datatype pynum = Num rat | NaN

fun isnan :: "pynum \<Rightarrow> bool" where
  "isnan NaN = True"
| "isnan (Num r) = False"

fun num_value :: "pynum \<Rightarrow> rat" where
  "num_value (Num r) = r"
| "num_value NaN = 0"

subsection \<open>Python built-ins used by the class\<close>

text \<open>\<open>xs[k]\<close> for a list and an integer index: a negative index counts from the end,
  an index out of range raises \<open>IndexError\<close>.\<close>

definition py_nth :: "'a list \<Rightarrow> int \<Rightarrow> py_error + 'a" where
  "py_nth xs k =
     (if 0 \<le> k \<and> k < int (length xs) then Inr (xs ! nat k)
      else if k < 0 \<and> - int (length xs) \<le> k then Inr (xs ! nat (k + int (length xs)))
      else Inl IndexError)"

text \<open>\<open>min(xs)\<close> and \<open>max(xs)\<close>: a left-to-right scan, \<open>ValueError\<close> on the empty list.\<close>

fun py_min :: "rat list \<Rightarrow> py_error + rat" where
  "py_min [] = Inl ValueError"
| "py_min (x # xs) = Inr (fold min xs x)"

fun py_max :: "rat list \<Rightarrow> py_error + rat" where
  "py_max [] = Inl ValueError"
| "py_max (x # xs) = Inr (fold max xs x)"

text \<open>\<open>a / b\<close> with a float operand: \<open>ZeroDivisionError\<close> when the divisor is zero.\<close>

definition py_truediv :: "rat \<Rightarrow> rat \<Rightarrow> py_error + rat" where
  "py_truediv a b = (if b = 0 then Inl ZeroDivisionError else Inr (a / b))"

text \<open>\<open>int(x)\<close> on a float truncates towards zero.\<close>

definition py_int :: "rat \<Rightarrow> int" where
  "py_int x = (if 0 \<le> x then \<lfloor>x\<rfloor> else \<lceil>x\<rceil>)"

text \<open>\<open>round(x, d)\<close>: the multiple of \<open>10 ** -d\<close> nearest to \<open>x\<close>, a tie going to the
  even multiple.\<close>

definition round_half_even :: "rat \<Rightarrow> int" where
  "round_half_even x =
     (let f = \<lfloor>x\<rfloor>; r = x - of_int f
      in if r < 1 / 2 then f else if 1 / 2 < r then f + 1
         else if even f then f else f + 1)"

definition pow10 :: "int \<Rightarrow> rat" where
  "pow10 d = (if 0 \<le> d then 10 ^ nat d else 1 / 10 ^ nat (- d))"

definition py_round :: "rat \<Rightarrow> int \<Rightarrow> rat" where
  "py_round x d = of_int (round_half_even (x * pow10 d)) / pow10 d"

subsection \<open>The object\<close>

text \<open>The attributes of a \<open>Colorbin\<close>. String formatting of floats is not modelled: a
  label \<open>'{}-{}'.format(n1, n2)\<close> is kept as the pair \<open>(n1, n2)\<close> and a fencepost label
  \<open>str(n)\<close> as the number \<open>n\<close>.\<close>

record colorbin =
  quantities :: "rat list"
  colors_in :: "string list"
  proportional :: bool
  bin_min :: rat
  bin_max :: rat
  bin_mid :: rat
  decimals :: "int option"
  fenceposts :: "rat list"
  labels :: "(rat \<times> rat) list"
  fencepostlabels :: "rat list"
  colors_out :: "string list"
  bin_counts :: "nat list"
  complements :: "string list option"

subsection \<open>\<open>_calc_fenceposts\<close>\<close>

text \<open>The body of the proportional loop for one \<open>i\<close>.\<close>

definition prop_post :: "colorbin \<Rightarrow> rat \<Rightarrow> rat \<Rightarrow> nat \<Rightarrow> rat" where
  "prop_post b step_1 step_2 i =
     (let P = length (colors_in b)
      in if of_nat i < (of_nat P :: rat) / 2 then bin_min b + of_nat i * step_1
         else if of_nat i = (of_nat P :: rat) / 2 then bin_mid b
         else bin_max b - of_int (int P - int i) * step_2)"

text \<open>The non-proportional loop \<open>for i in range(len(colors_in))\<close>, over the remaining
  values of \<open>i\<close>.\<close>

fun quantile_posts :: "rat list \<Rightarrow> rat \<Rightarrow> nat list \<Rightarrow> py_error + rat list" where
  "quantile_posts quant_sorted step [] = Inr []"
| "quantile_posts quant_sorted step (i # is) =
     (case py_nth quant_sorted (py_int (of_nat i * step)) of
        Inl e \<Rightarrow> Inl e
      | Inr q \<Rightarrow>
          (case quantile_posts quant_sorted step is of
             Inl e \<Rightarrow> Inl e
           | Inr ps \<Rightarrow> Inr (q # ps)))"

definition round_posts :: "int option \<Rightarrow> rat list \<Rightarrow> rat list" where
  "round_posts d ps = (case d of None \<Rightarrow> ps | Some n \<Rightarrow> map (\<lambda>x. py_round x n) ps)"

definition calc_fenceposts :: "colorbin \<Rightarrow> py_error + colorbin" where
  "calc_fenceposts b =
     (let P = length (colors_in b) in
      if proportional b then
        (case py_truediv (bin_mid b - bin_min b) (of_nat P) of
           Inl e \<Rightarrow> Inl e
         | Inr q1 \<Rightarrow>
             (case py_truediv (bin_max b - bin_mid b) (of_nat P) of
                Inl e \<Rightarrow> Inl e
              | Inr q2 \<Rightarrow>
                  Inr (b\<lparr>fenceposts :=
                         round_posts (decimals b)
                           (map (prop_post b (q1 * 2) (q2 * 2)) [0..<P + 1])\<rparr>)))
      else
        (let quant_sorted = sort (quantities b) in
         case py_truediv (of_nat (length quant_sorted)) (of_nat P) of
           Inl e \<Rightarrow> Inl e
         | Inr step \<Rightarrow>
             (case quantile_posts quant_sorted step [0..<P] of
                Inl e \<Rightarrow> Inl e
              | Inr ps \<Rightarrow>
                  (case py_nth quant_sorted (- 1) of
                     Inl e \<Rightarrow> Inl e
                   | Inr q_last \<Rightarrow>
                       Inr (b\<lparr>fenceposts := round_posts (decimals b) (ps @ [q_last])\<rparr>)))))"

subsection \<open>\<open>_calc_labels\<close>\<close>

text \<open>The loop variable \<open>n2\<close> is read after the loop; with fewer than two fenceposts the
  loop body never runs and the read raises \<open>UnboundLocalError\<close>.\<close>

definition calc_labels :: "colorbin \<Rightarrow> py_error + colorbin" where
  "calc_labels b =
     (let pairs = zip (butlast (fenceposts b)) (tl (fenceposts b))
      in if pairs = [] then Inl UnboundLocalError
         else Inr (b\<lparr>labels := pairs,
                     fencepostlabels := map fst pairs @ [snd (last pairs)]\<rparr>))"

subsection \<open>\<open>_calc_colors\<close>\<close>

text \<open>The inner loop \<open>for i in range(1, len(colors_in))\<close> over the remaining values of
  \<open>i\<close>, with the current value of \<open>bin_\<close>.\<close>

fun find_bin :: "rat list \<Rightarrow> rat \<Rightarrow> nat list \<Rightarrow> nat \<Rightarrow> py_error + nat" where
  "find_bin fps qty [] bin = Inr bin"
| "find_bin fps qty (i # is) bin =
     (case py_nth fps (int i) of
        Inl e \<Rightarrow> Inl e
      | Inr f \<Rightarrow> find_bin fps qty is (if f \<le> qty then i else bin))"

text \<open>The outer loop \<open>for qty in self.quantities\<close> over the remaining quantities, with
  the current \<open>colors_out\<close> and \<open>bin_counts\<close>.\<close>

fun colors_loop ::
  "string list \<Rightarrow> rat list \<Rightarrow> rat list \<Rightarrow> string list \<times> nat list \<Rightarrow>
   py_error + string list \<times> nat list" where
  "colors_loop cin fps [] (cout, counts) = Inr (cout, counts)"
| "colors_loop cin fps (qty # qs) (cout, counts) =
     (case find_bin fps qty [1..<length cin] 0 of
        Inl e \<Rightarrow> Inl e
      | Inr bin \<Rightarrow>
          (case py_nth cin (int bin) of
             Inl e \<Rightarrow> Inl e
           | Inr c \<Rightarrow>
               (case py_nth counts (int bin) of
                  Inl e \<Rightarrow> Inl e
                | Inr k \<Rightarrow>
                    colors_loop cin fps qs (cout @ [c], counts[bin := k + 1]))))"

definition calc_colors :: "colorbin \<Rightarrow> py_error + colorbin" where
  "calc_colors b =
     (case colors_loop (colors_in b) (fenceposts b) (quantities b)
             ([], replicate (length (colors_in b)) 0) of
        Inl e \<Rightarrow> Inl e
      | Inr (cout, counts) \<Rightarrow> Inr (b\<lparr>colors_out := cout, bin_counts := counts\<rparr>))"

subsection \<open>\<open>set_decimals\<close>, \<open>recalc\<close> and the constructor\<close>

definition set_decimals :: "int option \<Rightarrow> colorbin \<Rightarrow> colorbin" where
  "set_decimals d b = b\<lparr>decimals := d\<rparr>"

definition recalc :: "bool \<Rightarrow> colorbin \<Rightarrow> py_error + colorbin" where
  "recalc fp b =
     (case (if fp then calc_fenceposts b else Inr b) of
        Inl e \<Rightarrow> Inl e
      | Inr b1 \<Rightarrow>
          (case calc_labels b1 of
             Inl e \<Rightarrow> Inl e
           | Inr b2 \<Rightarrow> calc_colors b2))"

text \<open>\<open>__init__(self, quantities, colors_in, proportional, decimals)\<close>. The argument
  \<open>decimals\<close> is not read: the attribute is set to \<open>None\<close>.\<close>

definition Colorbin_init ::
  "pynum list \<Rightarrow> string list \<Rightarrow> bool \<Rightarrow> int option \<Rightarrow> py_error + colorbin" where
  "Colorbin_init quantities_arg colors_arg proportional_arg decimals_arg =
     (let qs = map num_value (filter (\<lambda>x. \<not> isnan x) quantities_arg) in
      case py_min qs of
        Inl e \<Rightarrow> Inl e
      | Inr lo \<Rightarrow>
          (case py_max qs of
             Inl e \<Rightarrow> Inl e
           | Inr hi \<Rightarrow>
               (case recalc True
                       \<lparr>quantities = qs, colors_in = colors_arg,
                        proportional = proportional_arg,
                        bin_min = lo, bin_max = hi, bin_mid = (lo + hi) / 2,
                        decimals = None, fenceposts = [], labels = [],
                        fencepostlabels = [], colors_out = [], bin_counts = [],
                        complements = None\<rparr> of
                  Inl e \<Rightarrow> Inl e
                | Inr b \<Rightarrow> Inr (b\<lparr>complements := None\<rparr>))))"

subsection \<open>\<open>calc_complements\<close>\<close>

text \<open>\<open>int(s, 16)\<close> on a string: surrounding whitespace is dropped, then come an
  optional sign, an optional prefix \<open>0x\<close> or \<open>0X\<close> (which one underscore may follow) and
  hexadecimal digits, of which there is at least one and between which single
  underscores may stand. Anything else raises \<open>ValueError\<close>. Among the code points below
  256 the whitespace is 9 to 13, 32, 133 and 160, and the only digits are the ASCII
  ones.\<close>

definition is_space :: "char \<Rightarrow> bool" where
  "is_space c = (of_char c \<in> {9, 10, 11, 12, 13, 32, 133, 160 :: nat})"

definition hex_value :: "char \<Rightarrow> nat option" where
  "hex_value c =
     (let n = of_char c :: nat
      in if 48 \<le> n \<and> n \<le> 57 then Some (n - 48)
         else if 97 \<le> n \<and> n \<le> 102 then Some (n - 87)
         else if 65 \<le> n \<and> n \<le> 70 then Some (n - 55)
         else None)"

text \<open>The digits after the first one: the flag says whether the previous character was
  an underscore, the number is the value read so far. The result is the value and the
  characters left over.\<close>

fun hex_digits :: "string \<Rightarrow> bool \<Rightarrow> nat \<Rightarrow> (nat \<times> string) option" where
  "hex_digits [] prev_us acc = (if prev_us then None else Some (acc, []))"
| "hex_digits (c # cs) prev_us acc =
     (if c = CHR ''_'' then (if prev_us then None else hex_digits cs True acc)
      else
        (case hex_value c of
           Some v \<Rightarrow> hex_digits cs False (16 * acc + v)
         | None \<Rightarrow> (if prev_us then None else Some (acc, c # cs))))"

definition skip_sign :: "string \<Rightarrow> bool \<times> string" where
  "skip_sign s =
     (case s of
        [] \<Rightarrow> (False, [])
      | c # cs \<Rightarrow>
          if c = CHR ''-'' then (True, cs)
          else if c = CHR ''+'' then (False, cs)
          else (False, c # cs))"

definition skip_prefix :: "string \<Rightarrow> string" where
  "skip_prefix s =
     (case s of
        c # x # cs \<Rightarrow>
          if c = CHR ''0'' \<and> (x = CHR ''x'' \<or> x = CHR ''X'')
          then (case cs of
                  [] \<Rightarrow> []
                | u # us \<Rightarrow> if u = CHR ''_'' then us else u # us)
          else s
      | _ \<Rightarrow> s)"

definition py_int16 :: "string \<Rightarrow> py_error + int" where
  "py_int16 s =
     (let (neg, t) = skip_sign (dropWhile is_space s)
      in case skip_prefix t of
           [] \<Rightarrow> Inl ValueError
         | c # cs \<Rightarrow>
             (case hex_value c of
                None \<Rightarrow> Inl ValueError
              | Some v \<Rightarrow>
                  (case hex_digits cs False v of
                     None \<Rightarrow> Inl ValueError
                   | Some (n, rest) \<Rightarrow>
                       if list_all is_space rest
                       then Inr (if neg then - int n else int n)
                       else Inl ValueError)))"

text \<open>\<open>int(color[1:][i:i + 6 // 3], 16)\<close> for one \<open>i\<close>.\<close>

definition channel :: "string \<Rightarrow> nat \<Rightarrow> py_error + int" where
  "channel color i = py_int16 (take 2 (drop i (drop 1 color)))"

text \<open>The three channels, read for \<open>i\<close> = 0, 2, 4 in this order, and the value of
  \<open>grey\<close>.\<close>

definition grey :: "string \<Rightarrow> py_error + rat" where
  "grey color =
     (case channel color 0 of
        Inl e \<Rightarrow> Inl e
      | Inr r \<Rightarrow>
          (case channel color 2 of
             Inl e \<Rightarrow> Inl e
           | Inr g \<Rightarrow>
               (case channel color 4 of
                  Inl e \<Rightarrow> Inl e
                | Inr b \<Rightarrow>
                    Inr ((299 / 1000 * of_int r + 587 / 1000 * of_int g
                          + 114 / 1000 * of_int b) / 256))))"

text \<open>The loop \<open>for color in self.colors_out\<close> over the remaining colours, with the
  current \<open>complements\<close>.\<close>

fun complements_loop ::
  "rat \<Rightarrow> string \<Rightarrow> string \<Rightarrow> string list \<Rightarrow> string list \<Rightarrow> py_error + string list" where
  "complements_loop cutoff color_below color_above [] acc = Inr acc"
| "complements_loop cutoff color_below color_above (color # cs) acc =
     (case grey color of
        Inl e \<Rightarrow> Inl e
      | Inr g \<Rightarrow>
          complements_loop cutoff color_below color_above cs
            (acc @ [if g < cutoff then color_below else color_above]))"

definition calc_complements :: "rat \<Rightarrow> string \<Rightarrow> string \<Rightarrow> colorbin \<Rightarrow> py_error + colorbin" where
  "calc_complements cutoff color_below color_above b =
     (case complements_loop cutoff color_below color_above (colors_out b) [] of
        Inl e \<Rightarrow> Inl e
      | Inr cs \<Rightarrow> Inr (b\<lparr>complements := Some cs\<rparr>))"

subsection \<open>Notions of the specification\<close>

text \<open>The bin of a quantity as the specification words it: the largest \<open>i\<close> in
  \<open>[1, P - 1]\<close> with \<open>quantity >= fenceposts[i]\<close>, and 0 if there is none.\<close>

definition spec_bin :: "rat list \<Rightarrow> nat \<Rightarrow> rat \<Rightarrow> nat" where
  "spec_bin fps P qty =
     (if \<exists>i \<in> {1..<P}. fps ! i \<le> qty
      then Max {i \<in> {1..<P}. fps ! i \<le> qty} else 0)"

text \<open>A colour in the format \<open>#RRGGBB\<close>: seven characters, a hash sign and six
  hexadecimal digits.\<close>

definition is_hex_color :: "string \<Rightarrow> bool" where
  "is_hex_color c =
     (length c = 7 \<and> hd c = CHR ''#'' \<and> list_all (\<lambda>x. hex_value x \<noteq> None) (tl c))"

text \<open>The luminance of a well-formed colour as the specification words it: each channel
  is the value of its two hexadecimal digits.\<close>

definition hex_pair :: "string \<Rightarrow> nat \<Rightarrow> nat" where
  "hex_pair c k = 16 * the (hex_value (c ! k)) + the (hex_value (c ! (k + 1)))"

definition luminance :: "string \<Rightarrow> rat" where
  "luminance c =
     (299 / 1000 * of_nat (hex_pair c 1) + 587 / 1000 * of_nat (hex_pair c 3)
      + 114 / 1000 * of_nat (hex_pair c 5)) / 256"

section \<open>Properties of the built-ins and of the loops\<close>

lemma fold_min_eq: "fold min xs (x::rat) = Min (set (x # xs))"
proof (induction xs arbitrary: x)
  case Nil
  then show ?case by simp
next
  case (Cons y ys)
  have "fold min (y # ys) x = Min (set (min y x # ys))"
    using Cons.IH [of "min y x"] by simp
  also have "\<dots> = Min (insert x (insert y (set ys)))"
    by (cases "ys = []") (simp_all add: min.commute min.assoc min.left_commute)
  finally show ?case by (simp add: insert_commute)
qed

lemma fold_max_eq: "fold max xs (x::rat) = Max (set (x # xs))"
proof (induction xs arbitrary: x)
  case Nil
  then show ?case by simp
next
  case (Cons y ys)
  have "fold max (y # ys) x = Max (set (max y x # ys))"
    using Cons.IH [of "max y x"] by simp
  also have "\<dots> = Max (insert x (insert y (set ys)))"
    by (cases "ys = []") (simp_all add: max.commute max.assoc max.left_commute)
  finally show ?case by (simp add: insert_commute)
qed

lemma py_min_eq: "xs \<noteq> [] \<Longrightarrow> py_min xs = Inr (Min (set xs))"
  using fold_min_eq by (cases xs) simp_all

lemma py_max_eq: "xs \<noteq> [] \<Longrightarrow> py_max xs = Inr (Max (set xs))"
  using fold_max_eq by (cases xs) simp_all

lemma py_nth_nat: "i < length xs \<Longrightarrow> py_nth xs (int i) = Inr (xs ! i)"
  by (simp add: py_nth_def)

lemma py_nth_last: "xs \<noteq> [] \<Longrightarrow> py_nth xs (- 1) = Inr (last xs)"
proof -
  assume ne: "xs \<noteq> []"
  then have len: "Suc 0 \<le> length xs" by (cases xs) simp_all
  then have "nat (- 1 + int (length xs)) = length xs - 1" by linarith
  then show ?thesis using ne len by (simp add: py_nth_def last_conv_nth)
qed

lemma find_bin_fold:
  "\<forall>i \<in> set is. i < length fps \<Longrightarrow>
   find_bin fps qty is bin = Inr (fold (\<lambda>i b. if fps ! i \<le> qty then i else b) is bin)"
  by (induction "is" arbitrary: bin) (simp_all add: py_nth_nat)

lemma spec_bin_Suc:
  "spec_bin fps (Suc P) qty = (if 1 \<le> P \<and> fps ! P \<le> qty then P else spec_bin fps P qty)"
proof (cases "1 \<le> P")
  case False
  then have "P = 0" by simp
  then show ?thesis by (simp add: spec_bin_def)
next
  case True
  then have S: "{1..<Suc P} = insert P {1..<P}" by auto
  show ?thesis
  proof (cases "fps ! P \<le> qty")
    case hit: True
    have E: "\<exists>i \<in> {1..<Suc P}. fps ! i \<le> qty"
      using hit True by (intro bexI [of _ P]) simp_all
    have "{i \<in> {1..<Suc P}. fps ! i \<le> qty} = insert P {i \<in> {1..<P}. fps ! i \<le> qty}"
      using hit S by auto
    moreover have "Max (insert P {i \<in> {1..<P}. fps ! i \<le> qty}) = P"
      by (rule Max_eqI) auto
    ultimately have "Max {i \<in> {1..<Suc P}. fps ! i \<le> qty} = P" by simp
    then have "spec_bin fps (Suc P) qty = P"
      unfolding spec_bin_def using E by presburger
    then show ?thesis using hit True by simp
  next
    case miss: False
    have A: "{i \<in> {1..<Suc P}. fps ! i \<le> qty} = {i \<in> {1..<P}. fps ! i \<le> qty}"
      using miss S by auto
    have B: "(\<exists>i \<in> {1..<Suc P}. fps ! i \<le> qty) = (\<exists>i \<in> {1..<P}. fps ! i \<le> qty)"
      using miss S by auto
    have "spec_bin fps (Suc P) qty = spec_bin fps P qty"
      unfolding spec_bin_def A B ..
    then show ?thesis using miss by simp
  qed
qed

lemma fold_bin_spec:
  "fold (\<lambda>i b. if fps ! i \<le> qty then i else b) [1..<P] 0 = spec_bin fps P qty"
proof (induction P)
  case 0
  then show ?case by (simp add: spec_bin_def)
next
  case (Suc P)
  show ?case
  proof (cases "1 \<le> P")
    case True
    then show ?thesis using Suc by (simp add: spec_bin_Suc)
  next
    case False
    then show ?thesis by (simp add: spec_bin_def)
  qed
qed

lemma find_bin_spec:
  "P \<le> length fps \<Longrightarrow> find_bin fps qty [1..<P] 0 = Inr (spec_bin fps P qty)"
  using find_bin_fold [of "[1..<P]" fps qty 0] fold_bin_spec [of fps qty P] by simp

lemma spec_bin_0: "spec_bin fps 0 qty = 0"
  by (simp add: spec_bin_def)

lemma spec_bin_less: "0 < P \<Longrightarrow> spec_bin fps P qty < P"
proof (induction P)
  case 0
  then show ?case by simp
next
  case (Suc P)
  show ?case
  proof (cases "P = 0")
    case True
    then show ?thesis by (simp add: spec_bin_Suc spec_bin_0)
  next
    case False
    then have "spec_bin fps P qty < P" using Suc.IH by simp
    then show ?thesis by (simp add: spec_bin_Suc)
  qed
qed

lemma spec_bin_hit: "spec_bin fps P qty \<noteq> 0 \<Longrightarrow> fps ! spec_bin fps P qty \<le> qty"
proof (induction P)
  case 0
  then show ?case by (simp add: spec_bin_0)
next
  case (Suc P)
  then show ?case by (simp add: spec_bin_Suc split: if_splits)
qed

lemma spec_bin_greatest:
  "1 \<le> i \<Longrightarrow> i < P \<Longrightarrow> fps ! i \<le> qty \<Longrightarrow> i \<le> spec_bin fps P qty"
proof (induction P)
  case 0
  then show ?case by simp
next
  case (Suc P)
  show ?case
  proof (cases "i = P")
    case True
    then show ?thesis using Suc.prems by (simp add: spec_bin_Suc)
  next
    case False
    then have "i \<le> spec_bin fps P qty" using Suc by simp
    moreover have "spec_bin fps P qty < P" using Suc.prems False by (intro spec_bin_less) simp
    ultimately show ?thesis by (simp add: spec_bin_Suc)
  qed
qed

lemma colors_loop_eq:
  assumes "length cin \<le> length fps" "length counts = length cin" "qs = [] \<or> cin \<noteq> []"
  shows "colors_loop cin fps qs (cout, counts) =
         Inr (cout @ map (\<lambda>q. cin ! spec_bin fps (length cin) q) qs,
              fold (\<lambda>q c. c[spec_bin fps (length cin) q := c ! spec_bin fps (length cin) q + 1])
                qs counts)"
  using assms
proof (induction qs arbitrary: cout counts)
  case Nil
  then show ?case by simp
next
  case (Cons q qs)
  let ?k = "spec_bin fps (length cin) q"
  have k: "?k < length cin" using Cons.prems by (intro spec_bin_less) simp
  have fb: "find_bin fps q [1..<length cin] 0 = Inr ?k"
    using Cons.prems by (intro find_bin_spec) simp
  have n1: "py_nth cin (int ?k) = Inr (cin ! ?k)" using k by (rule py_nth_nat)
  have n2: "py_nth counts (int ?k) = Inr (counts ! ?k)"
    using k Cons.prems by (intro py_nth_nat) simp
  have "colors_loop cin fps (q # qs) (cout, counts) =
        colors_loop cin fps qs (cout @ [cin ! ?k], counts[?k := counts ! ?k + 1])"
    by (simp only: colors_loop.simps fb n1 n2 sum.case)
  also have "\<dots> = Inr ((cout @ [cin ! ?k]) @ map (\<lambda>q. cin ! spec_bin fps (length cin) q) qs,
              fold (\<lambda>q c. c[spec_bin fps (length cin) q := c ! spec_bin fps (length cin) q + 1])
                qs (counts[?k := counts ! ?k + 1]))"
    using Cons.prems by (intro Cons.IH) auto
  finally show ?case by simp
qed

lemma fold_counts_length:
  "length (fold (\<lambda>q c. c[f q := Suc (c ! f q)]) qs counts) = length counts"
  by (induction qs arbitrary: counts) simp_all

lemma fold_counts_nth:
  "j < length counts \<Longrightarrow>
   fold (\<lambda>q c. c[f q := Suc (c ! f q)]) qs counts ! j =
   counts ! j + length (filter (\<lambda>q. f q = j) qs)"
proof (induction qs arbitrary: counts)
  case Nil
  then show ?case by simp
next
  case (Cons q qs)
  have "fold (\<lambda>q c. c[f q := Suc (c ! f q)]) (q # qs) counts ! j =
        counts[f q := Suc (counts ! f q)] ! j + length (filter (\<lambda>q. f q = j) qs)"
    using Cons.prems Cons.IH [of "counts[f q := Suc (counts ! f q)]"] by simp
  then show ?case using Cons.prems by (cases "f q = j") simp_all
qed

lemma fold_counts_sum:
  "\<forall>q \<in> set qs. f q < length counts \<Longrightarrow>
   sum_list (fold (\<lambda>q c. c[f q := Suc (c ! f q)]) qs counts) = sum_list counts + length qs"
proof (induction qs arbitrary: counts)
  case Nil
  then show ?case by simp
next
  case (Cons q qs)
  have "sum_list (counts[f q := Suc (counts ! f q)]) = sum_list counts + 1"
    using Cons.prems by (simp add: sum_list_update)
  then show ?case using Cons.prems Cons.IH [of "counts[f q := Suc (counts ! f q)]"] by simp
qed

lemma py_int_index:
  assumes "0 < P"
  shows "py_int (of_nat i * (of_nat n / of_nat P)) = int (i * n div P)"
proof -
  have "(of_nat i * (of_nat n / of_nat P) :: rat) = of_int (int (i * n)) / of_int (int P)"
    by simp
  then have "\<lfloor>of_nat i * (of_nat n / of_nat P) :: rat\<rfloor> = int (i * n) div int P"
    by (simp only: floor_divide_of_int_eq)
  moreover have "(0::rat) \<le> of_nat i * (of_nat n / of_nat P)" by simp
  ultimately show ?thesis by (simp add: py_int_def zdiv_int)
qed

lemma index_less:
  assumes "i < P" "0 < n"
  shows "i * n div P < (n::nat)"
proof -
  have "i * n < P * n" using assms by simp
  then have "i * n div P < n" using assms
    by (simp add: less_mult_imp_div_less mult.commute)
  then show ?thesis .
qed

lemma quantile_posts_eq:
  assumes "0 < P" "0 < length s" "\<forall>i \<in> set is. i < P"
  shows "quantile_posts s (of_nat (length s) / of_nat P) is =
         Inr (map (\<lambda>i. s ! (i * length s div P)) is)"
  using assms(3)
proof (induction "is")
  case Nil
  then show ?case by simp
next
  case (Cons i "is")
  have "i * length s div P < length s" using Cons.prems assms by (intro index_less) simp_all
  then have "py_nth s (py_int (of_nat i * (of_nat (length s) / of_nat P))) =
             Inr (s ! (i * length s div P))"
    by (simp only: py_int_index [OF assms(1)] py_nth_nat)
  then show ?case using Cons by simp
qed

lemma calc_colors_eq:
  assumes "length (colors_in b) \<le> length (fenceposts b)"
    and "quantities b = [] \<or> colors_in b \<noteq> []"
  shows "calc_colors b =
         Inr (b\<lparr>colors_out :=
                 map (\<lambda>q. colors_in b ! spec_bin (fenceposts b) (length (colors_in b)) q)
                   (quantities b),
               bin_counts :=
                 fold (\<lambda>q c. c[spec_bin (fenceposts b) (length (colors_in b)) q :=
                              c ! spec_bin (fenceposts b) (length (colors_in b)) q + 1])
                   (quantities b) (replicate (length (colors_in b)) 0)\<rparr>)"
  unfolding calc_colors_def
  using colors_loop_eq [OF assms(1) _ assms(2), of "replicate (length (colors_in b)) 0" "[]"]
  by simp

lemma calc_labels_eq:
  assumes "2 \<le> length (fenceposts b)"
  shows "calc_labels b =
         Inr (b\<lparr>labels := zip (butlast (fenceposts b)) (tl (fenceposts b)),
               fencepostlabels :=
                 map fst (zip (butlast (fenceposts b)) (tl (fenceposts b)))
                 @ [snd (last (zip (butlast (fenceposts b)) (tl (fenceposts b))))]\<rparr>)"
proof -
  have "length (zip (butlast (fenceposts b)) (tl (fenceposts b))) = length (fenceposts b) - 1"
    by simp
  then have "zip (butlast (fenceposts b)) (tl (fenceposts b)) \<noteq> []"
    using assms by (metis One_nat_def Suc_1 Suc_le_lessD list.size(3) not_less_eq zero_less_diff less_numeral_extra(3))
  then show ?thesis by (simp add: calc_labels_def Let_def)
qed

lemma calc_fenceposts_prop:
  assumes "proportional b" "colors_in b \<noteq> []"
  shows "calc_fenceposts b =
         Inr (b\<lparr>fenceposts :=
                 round_posts (decimals b)
                   (map (prop_post b
                          ((bin_mid b - bin_min b) / of_nat (length (colors_in b)) * 2)
                          ((bin_max b - bin_mid b) / of_nat (length (colors_in b)) * 2))
                      [0..<length (colors_in b) + 1])\<rparr>)"
  using assms by (simp add: calc_fenceposts_def py_truediv_def Let_def)

lemma calc_fenceposts_quantile:
  assumes "\<not> proportional b" "colors_in b \<noteq> []" "quantities b \<noteq> []"
  shows "calc_fenceposts b =
         Inr (b\<lparr>fenceposts :=
                 round_posts (decimals b)
                   (map (\<lambda>i. sort (quantities b) ! (i * length (quantities b) div length (colors_in b)))
                      [0..<length (colors_in b)]
                    @ [last (sort (quantities b))])\<rparr>)"
proof -
  let ?s = "sort (quantities b)" and ?P = "length (colors_in b)"
  have P: "0 < ?P" using assms(2) by simp
  have n: "0 < length ?s" using assms(3) by simp
  have ne: "?s \<noteq> []" using n by (simp del: length_sort)
  have q: "quantile_posts ?s (of_nat (length ?s) / of_nat ?P) [0..<?P] =
           Inr (map (\<lambda>i. ?s ! (i * length ?s div ?P)) [0..<?P])"
    using P n by (intro quantile_posts_eq) simp_all
  have d: "py_truediv (of_nat (length ?s)) (of_nat ?P) = Inr (of_nat (length ?s) / of_nat ?P)"
    using P by (simp add: py_truediv_def)
  have l: "py_nth ?s (- 1) = Inr (last ?s)" using ne by (rule py_nth_last)
  have "calc_fenceposts b =
         Inr (b\<lparr>fenceposts :=
                 round_posts (decimals b)
                   (map (\<lambda>i. ?s ! (i * length ?s div ?P)) [0..<?P] @ [last ?s])\<rparr>)"
    unfolding calc_fenceposts_def Let_def
    using assms(1) by (simp only: d q l sum.case if_False)
  then show ?thesis by (simp only: length_sort)
qed

lemma prop_post_cong:
  "colors_in b' = colors_in b \<Longrightarrow> bin_min b' = bin_min b \<Longrightarrow> bin_mid b' = bin_mid b \<Longrightarrow>
   bin_max b' = bin_max b \<Longrightarrow> prop_post b' s1 s2 = prop_post b s1 s2"
  by (simp add: prop_post_def fun_eq_iff Let_def)

lemma recalc_eq:
  assumes F: "calc_fenceposts b = Inr (b\<lparr>fenceposts := fps\<rparr>)"
    and len: "length fps = length (colors_in b) + 1" and ne: "colors_in b \<noteq> []"
  shows "\<exists>l fl. recalc True b =
         Inr (b\<lparr>fenceposts := fps, labels := l, fencepostlabels := fl,
               colors_out :=
                 map (\<lambda>q. colors_in b ! spec_bin fps (length (colors_in b)) q) (quantities b),
               bin_counts :=
                 fold (\<lambda>q c. c[spec_bin fps (length (colors_in b)) q :=
                              c ! spec_bin fps (length (colors_in b)) q + 1])
                   (quantities b) (replicate (length (colors_in b)) 0)\<rparr>)"
proof -
  let ?b1 = "b\<lparr>fenceposts := fps\<rparr>"
  have "2 \<le> length (fenceposts ?b1)" using len ne by (cases "colors_in b") simp_all
  from calc_labels_eq [OF this] obtain l fl where
    L: "calc_labels ?b1 = Inr (?b1\<lparr>labels := l, fencepostlabels := fl\<rparr>)" by blast
  let ?b2 = "?b1\<lparr>labels := l, fencepostlabels := fl\<rparr>"
  have "length (colors_in ?b2) \<le> length (fenceposts ?b2)" using len by simp
  moreover have "quantities ?b2 = [] \<or> colors_in ?b2 \<noteq> []" using ne by simp
  ultimately have C: "calc_colors ?b2 =
      Inr (?b2\<lparr>colors_out :=
                 map (\<lambda>q. colors_in ?b2 ! spec_bin (fenceposts ?b2) (length (colors_in ?b2)) q)
                   (quantities ?b2),
               bin_counts :=
                 fold (\<lambda>q c. c[spec_bin (fenceposts ?b2) (length (colors_in ?b2)) q :=
                              c ! spec_bin (fenceposts ?b2) (length (colors_in ?b2)) q + 1])
                   (quantities ?b2) (replicate (length (colors_in ?b2)) 0)\<rparr>)"
    by (rule calc_colors_eq)
  have "recalc True b = calc_colors ?b2"
    by (simp only: recalc_def F L sum.case if_True)
  then show ?thesis unfolding C by (intro exI [of _ l] exI [of _ fl]) simp
qed

lemma calc_fenceposts_no_colors: "colors_in b = [] \<Longrightarrow> calc_fenceposts b = Inl ZeroDivisionError"
  by (simp add: calc_fenceposts_def py_truediv_def)

lemma Colorbin_init_empty:
  "filter (\<lambda>x. \<not> isnan x) qs = [] \<Longrightarrow> Colorbin_init qs pal prop dec = Inl ValueError"
  by (simp add: Colorbin_init_def)

lemma Colorbin_init_no_colors:
  assumes "filter (\<lambda>x. \<not> isnan x) qs \<noteq> []"
  shows "Colorbin_init qs [] prop dec = Inl ZeroDivisionError"
proof -
  let ?fq = "map num_value (filter (\<lambda>x. \<not> isnan x) qs)"
  have ne: "?fq \<noteq> []" using assms by simp
  show ?thesis
    unfolding Colorbin_init_def Let_def
    by (simp only: py_min_eq [OF ne] py_max_eq [OF ne] sum.case)
       (simp add: recalc_def calc_fenceposts_no_colors)
qed

lemma Colorbin_init_ok:
  assumes fq: "fq = map num_value (filter (\<lambda>x. \<not> isnan x) qs)"
    and ne: "fq \<noteq> []" and pal: "pal \<noteq> []"
  shows "\<exists>b. Colorbin_init qs pal prop dec = Inr b
           \<and> quantities b = fq \<and> colors_in b = pal \<and> proportional b = prop
           \<and> decimals b = None \<and> complements b = None
           \<and> bin_min b = Min (set fq) \<and> bin_max b = Max (set fq)
           \<and> bin_mid b = (Min (set fq) + Max (set fq)) / 2
           \<and> fenceposts b =
               (if prop
                then map (prop_post b ((bin_mid b - bin_min b) / of_nat (length pal) * 2)
                                      ((bin_max b - bin_mid b) / of_nat (length pal) * 2))
                       [0..<length pal + 1]
                else map (\<lambda>i. sort fq ! (i * length fq div length pal)) [0..<length pal]
                     @ [last (sort fq)])
           \<and> colors_out b = map (\<lambda>q. pal ! spec_bin (fenceposts b) (length pal) q) fq
           \<and> bin_counts b =
               fold (\<lambda>q c. c[spec_bin (fenceposts b) (length pal) q :=
                            c ! spec_bin (fenceposts b) (length pal) q + 1])
                 fq (replicate (length pal) 0)"
proof -
  define b0 where "b0 =
    \<lparr>quantities = fq, colors_in = pal, proportional = prop,
     bin_min = Min (set fq), bin_max = Max (set fq),
     bin_mid = (Min (set fq) + Max (set fq)) / 2,
     decimals = None, fenceposts = [], labels = [], fencepostlabels = [],
     colors_out = [], bin_counts = [], complements = None\<rparr>"
  define fps where "fps =
    (if prop
     then map (prop_post b0 ((bin_mid b0 - bin_min b0) / of_nat (length pal) * 2)
                            ((bin_max b0 - bin_mid b0) / of_nat (length pal) * 2))
            [0..<length pal + 1]
     else map (\<lambda>i. sort fq ! (i * length fq div length pal)) [0..<length pal]
          @ [last (sort fq)])"
  have sel: "quantities b0 = fq" "colors_in b0 = pal" "proportional b0 = prop"
    "decimals b0 = None" "complements b0 = None" "bin_min b0 = Min (set fq)"
    "bin_max b0 = Max (set fq)" "bin_mid b0 = (Min (set fq) + Max (set fq)) / 2"
    by (simp_all add: b0_def)
  have I: "Colorbin_init qs pal prop dec =
           (case recalc True b0 of Inl e \<Rightarrow> Inl e | Inr b \<Rightarrow> Inr (b\<lparr>complements := None\<rparr>))"
    unfolding Colorbin_init_def Let_def fq [symmetric] b0_def
    by (simp only: py_min_eq [OF ne] py_max_eq [OF ne] sum.case)
  have F: "calc_fenceposts b0 = Inr (b0\<lparr>fenceposts := fps\<rparr>)"
  proof (cases "prop")
    case True
    then show ?thesis
      using calc_fenceposts_prop [of b0] pal
      by (simp add: sel fps_def round_posts_def)
  next
    case False
    then show ?thesis
      using calc_fenceposts_quantile [of b0] pal ne
      by (simp add: sel fps_def round_posts_def)
  qed
  have len: "length fps = length (colors_in b0) + 1"
    by (simp add: fps_def sel)
  have "colors_in b0 \<noteq> []" using pal by (simp add: sel)
  from recalc_eq [OF F len this] obtain l fl where
    R: "recalc True b0 =
         Inr (b0\<lparr>fenceposts := fps, labels := l, fencepostlabels := fl,
               colors_out :=
                 map (\<lambda>q. colors_in b0 ! spec_bin fps (length (colors_in b0)) q) (quantities b0),
               bin_counts :=
                 fold (\<lambda>q c. c[spec_bin fps (length (colors_in b0)) q :=
                              c ! spec_bin fps (length (colors_in b0)) q + 1])
                   (quantities b0) (replicate (length (colors_in b0)) 0)\<rparr>)"
    by blast
  define b where "b = b0\<lparr>fenceposts := fps, labels := l, fencepostlabels := fl,
               colors_out :=
                 map (\<lambda>q. colors_in b0 ! spec_bin fps (length (colors_in b0)) q) (quantities b0),
               bin_counts :=
                 fold (\<lambda>q c. c[spec_bin fps (length (colors_in b0)) q :=
                              c ! spec_bin fps (length (colors_in b0)) q + 1])
                   (quantities b0) (replicate (length (colors_in b0)) 0),
               complements := None\<rparr>"
  have B: "Colorbin_init qs pal prop dec = Inr b"
    unfolding I R b_def by simp
  have selb: "quantities b = fq" "colors_in b = pal" "proportional b = prop"
    "decimals b = None" "complements b = None" "bin_min b = Min (set fq)"
    "bin_max b = Max (set fq)" "bin_mid b = (Min (set fq) + Max (set fq)) / 2"
    "fenceposts b = fps"
    "colors_out b = map (\<lambda>q. pal ! spec_bin fps (length pal) q) fq"
    "bin_counts b = fold (\<lambda>q c. c[spec_bin fps (length pal) q :=
                              c ! spec_bin fps (length pal) q + 1]) fq (replicate (length pal) 0)"
    by (simp_all add: b_def sel)
  have pp: "prop_post b = prop_post b0"
    by (intro ext prop_post_cong) (simp_all add: selb sel)
  have "fenceposts b =
               (if prop
                then map (prop_post b ((bin_mid b - bin_min b) / of_nat (length pal) * 2)
                                      ((bin_max b - bin_mid b) / of_nat (length pal) * 2))
                       [0..<length pal + 1]
                else map (\<lambda>i. sort fq ! (i * length fq div length pal)) [0..<length pal]
                     @ [last (sort fq)])"
    unfolding pp selb sel fps_def ..
  then show ?thesis using B selb by (intro exI [of _ b]) (simp only: simp_thms)
qed

lemma Colorbin_init_InrD:
  assumes "Colorbin_init qs pal prop dec = Inr b"
  shows "filter (\<lambda>x. \<not> isnan x) qs \<noteq> []" and "pal \<noteq> []"
proof -
  show ne: "filter (\<lambda>x. \<not> isnan x) qs \<noteq> []"
    using assms Colorbin_init_empty [of qs pal "prop" dec] by auto
  show "pal \<noteq> []"
    using assms Colorbin_init_no_colors [OF ne, of "prop" dec] by auto
qed

lemma Colorbin_init_Inr:
  assumes "Colorbin_init qs pal prop dec = Inr b"
  shows "quantities b = map num_value (filter (\<lambda>x. \<not> isnan x) qs)"
    and "colors_in b = pal" and "proportional b = prop" and "decimals b = None"
    and "bin_min b = Min (set (quantities b))" and "bin_max b = Max (set (quantities b))"
    and "bin_mid b = (bin_min b + bin_max b) / 2"
    and "fenceposts b =
               (if prop
                then map (prop_post b ((bin_mid b - bin_min b) / of_nat (length pal) * 2)
                                      ((bin_max b - bin_mid b) / of_nat (length pal) * 2))
                       [0..<length pal + 1]
                else map (\<lambda>i. sort (quantities b) ! (i * length (quantities b) div length pal))
                       [0..<length pal]
                     @ [last (sort (quantities b))])"
    and "colors_out b = map (\<lambda>q. pal ! spec_bin (fenceposts b) (length pal) q) (quantities b)"
    and "bin_counts b =
               fold (\<lambda>q c. c[spec_bin (fenceposts b) (length pal) q :=
                            c ! spec_bin (fenceposts b) (length pal) q + 1])
                 (quantities b) (replicate (length pal) 0)"
    and "quantities b \<noteq> []" and "pal \<noteq> []"
proof -
  let ?fq = "map num_value (filter (\<lambda>x. \<not> isnan x) qs)"
  have ne: "?fq \<noteq> []" and pal: "pal \<noteq> []"
    using Colorbin_init_InrD [OF assms] by simp_all
  from Colorbin_init_ok [OF refl ne pal, of "prop" dec] obtain b' where
    B: "Colorbin_init qs pal prop dec = Inr b'" and
    props: "quantities b' = ?fq \<and> colors_in b' = pal \<and> proportional b' = prop
           \<and> decimals b' = None \<and> complements b' = None
           \<and> bin_min b' = Min (set ?fq) \<and> bin_max b' = Max (set ?fq)
           \<and> bin_mid b' = (Min (set ?fq) + Max (set ?fq)) / 2
           \<and> fenceposts b' =
               (if prop
                then map (prop_post b' ((bin_mid b' - bin_min b') / of_nat (length pal) * 2)
                                      ((bin_max b' - bin_mid b') / of_nat (length pal) * 2))
                       [0..<length pal + 1]
                else map (\<lambda>i. sort ?fq ! (i * length ?fq div length pal)) [0..<length pal]
                     @ [last (sort ?fq)])
           \<and> colors_out b' = map (\<lambda>q. pal ! spec_bin (fenceposts b') (length pal) q) ?fq
           \<and> bin_counts b' =
               fold (\<lambda>q c. c[spec_bin (fenceposts b') (length pal) q :=
                            c ! spec_bin (fenceposts b') (length pal) q + 1])
                 ?fq (replicate (length pal) 0)"
    by blast
  have bb: "b' = b" using B assms by simp
  note * = props [unfolded bb]
  show "quantities b = ?fq" using * by blast
  then have q: "?fq = quantities b" by simp
  show "colors_in b = pal" "proportional b = prop" "decimals b = None" using * by blast+
  show "bin_min b = Min (set (quantities b))" "bin_max b = Max (set (quantities b))"
    using * unfolding q by blast+
  show "bin_mid b = (bin_min b + bin_max b) / 2" using * by simp
  show "fenceposts b =
               (if prop
                then map (prop_post b ((bin_mid b - bin_min b) / of_nat (length pal) * 2)
                                      ((bin_max b - bin_mid b) / of_nat (length pal) * 2))
                       [0..<length pal + 1]
                else map (\<lambda>i. sort (quantities b) ! (i * length (quantities b) div length pal))
                       [0..<length pal]
                     @ [last (sort (quantities b))])"
    using * unfolding q by blast
  show "colors_out b = map (\<lambda>q. pal ! spec_bin (fenceposts b) (length pal) q) (quantities b)"
    using * unfolding q by blast
  show "bin_counts b =
               fold (\<lambda>q c. c[spec_bin (fenceposts b) (length pal) q :=
                            c ! spec_bin (fenceposts b) (length pal) q + 1])
                 (quantities b) (replicate (length pal) 0)"
    using * unfolding q by blast
  show "quantities b \<noteq> []" using ne unfolding q .
  show "pal \<noteq> []" by (rule pal)
qed

lemma bin_counts_nth:
  assumes "Colorbin_init qs pal prop dec = Inr b" "j < length pal"
  shows "bin_counts b ! j =
         length (filter (\<lambda>q. spec_bin (fenceposts b) (length pal) q = j) (quantities b))"
  using assms(2) Colorbin_init_Inr(10) [OF assms(1)]
  by (simp add: fold_counts_nth)

lemma bin_counts_length:
  assumes "Colorbin_init qs pal prop dec = Inr b"
  shows "length (bin_counts b) = length pal"
  using Colorbin_init_Inr(10) [OF assms(1)] by (simp add: fold_counts_length)

lemma bin_counts_sum:
  assumes "Colorbin_init qs pal prop dec = Inr b"
  shows "sum_list (bin_counts b) = length (quantities b)"
proof -
  have "0 < length pal" using Colorbin_init_Inr(12) [OF assms] by simp
  then show ?thesis
    using Colorbin_init_Inr(10) [OF assms(1)]
    by (simp add: fold_counts_sum spec_bin_less)
qed

section \<open>The claims\<close>

text \<open>
  C1. For a \<open>Colorbin\<close> constructed from a list with at least one non-NaN quantity and a
  palette of size \<open>P\<close>, every quantity is put in the bin whose index is the largest
  \<open>i\<close> in \<open>[1, P - 1]\<close> with \<open>quantity >= fenceposts[i]\<close>, and in bin 0 when there is no
  such \<open>i\<close>; its entry of \<open>colors_out\<close> is the palette colour of that index and the
  count of that bin is the number of quantities put in it. A quantity equal to a
  fencepost is therefore in the upper bin: with fenceposts \<open>[0, 5, 10]\<close> and two
  colours the inner loop of \<open>_calc_colors\<close> puts 5 in bin 1.
\<close>

theorem bin_is_largest_qualifying_fencepost:
  assumes "Colorbin_init qs pal prop dec = Inr b"
  shows "colors_out b = map (\<lambda>q. pal ! spec_bin (fenceposts b) (length pal) q) (quantities b)
       \<and> (\<forall>j < length pal. bin_counts b ! j =
            length (filter (\<lambda>q. spec_bin (fenceposts b) (length pal) q = j) (quantities b)))
       \<and> (\<forall>q \<in> set (quantities b). \<forall>i \<in> {1..<length pal}.
            q = fenceposts b ! i \<longrightarrow> i \<le> spec_bin (fenceposts b) (length pal) q)
       \<and> (\<forall>q. find_bin (fenceposts b) q [1..<length pal] 0 =
              Inr (spec_bin (fenceposts b) (length pal) q))
       \<and> find_bin [0, 5, 10] 5 [1..<2] 0 = Inr 1"
proof -
  have len: "length pal \<le> length (fenceposts b)"
    using Colorbin_init_Inr(8) [OF assms] by (simp split: if_splits)
  have "find_bin [0, 5, 10] 5 [1..<2] 0 = Inr 1" by code_simp
  moreover have "\<forall>q \<in> set (quantities b). \<forall>i \<in> {1..<length pal}.
            q = fenceposts b ! i \<longrightarrow> i \<le> spec_bin (fenceposts b) (length pal) q"
    by (auto intro: spec_bin_greatest)
  moreover have "\<forall>q. find_bin (fenceposts b) q [1..<length pal] 0 =
              Inr (spec_bin (fenceposts b) (length pal) q)"
    using len by (intro allI find_bin_spec)
  ultimately show ?thesis
    using Colorbin_init_Inr(9) [OF assms] bin_counts_nth [OF assms] by blast
qed

theorem bin_is_largest_qualifying_fencepost_witness:
  "let pal = [''#000000'', ''#ffffff''];
       b = \<lparr>quantities = [0, 5, 10], colors_in = [''#000000'', ''#ffffff''],
          proportional = True, bin_min = 0, bin_max = 10, bin_mid = 5,
          decimals = None, fenceposts = [0, 5, 10],
          labels = [(0, 5), (5, 10)], fencepostlabels = [0, 5, 10],
          colors_out = [''#000000'', ''#ffffff'', ''#ffffff''],
          bin_counts = [1, 2], complements = None\<rparr>
   in Colorbin_init [Num 0, Num 5, Num 10] pal True None = Inr b
      \<and> colors_out b = map (\<lambda>q. pal ! spec_bin (fenceposts b) (length pal) q) (quantities b)
      \<and> spec_bin (fenceposts b) (length pal) 5 = 1"
proof -
  let ?b = "\<lparr>quantities = [0, 5, 10], colors_in = [''#000000'', ''#ffffff''],
          proportional = True, bin_min = 0, bin_max = 10, bin_mid = 5,
          decimals = None, fenceposts = [0, 5, 10],
          labels = [(0, 5), (5, 10)], fencepostlabels = [0, 5, 10],
          colors_out = [''#000000'', ''#ffffff'', ''#ffffff''],
          bin_counts = [1, 2], complements = None\<rparr>"
  have h: "Colorbin_init [Num 0, Num 5, Num 10] [''#000000'', ''#ffffff''] True None = Inr ?b"
    by code_simp
  have "spec_bin (fenceposts ?b) (length [''#000000'', ''#ffffff'']) 5 = 1" by code_simp
  then show ?thesis
    unfolding Let_def using h bin_is_largest_qualifying_fencepost [OF h] by blast
qed

text \<open>
  C3. For a constructed \<open>Colorbin\<close>, \<open>quantities\<close> are the non-NaN inputs in their order,
  \<open>colors_out\<close> has one entry for each of them, the entry at position \<open>k\<close> is the colour
  of the bin of the quantity at position \<open>k\<close>, every entry is a colour of the palette,
  and \<open>bin_counts\<close> has one count per colour, the counts adding up to the number of
  non-NaN inputs.
\<close>

theorem colors_out_aligned_and_counted:
  assumes "Colorbin_init qs pal prop dec = Inr b"
  shows "quantities b = map num_value (filter (\<lambda>x. \<not> isnan x) qs)
       \<and> length (colors_out b) = length (filter (\<lambda>x. \<not> isnan x) qs)
       \<and> (\<forall>k < length (colors_out b).
            colors_out b ! k = pal ! spec_bin (fenceposts b) (length pal) (quantities b ! k))
       \<and> set (colors_out b) \<subseteq> set pal
       \<and> length (bin_counts b) = length pal
       \<and> sum_list (bin_counts b) = length (filter (\<lambda>x. \<not> isnan x) qs)"
proof -
  note q = Colorbin_init_Inr(1) [OF assms]
  note c = Colorbin_init_Inr(9) [OF assms]
  have P: "0 < length pal" using Colorbin_init_Inr(12) [OF assms] by simp
  have l: "length (quantities b) = length (filter (\<lambda>x. \<not> isnan x) qs)"
    unfolding q by simp
  have "set (colors_out b) \<subseteq> set pal"
    unfolding c using P by (auto simp: spec_bin_less)
  moreover have "\<forall>k < length (colors_out b).
            colors_out b ! k = pal ! spec_bin (fenceposts b) (length pal) (quantities b ! k)"
    unfolding c by simp
  moreover have "length (colors_out b) = length (filter (\<lambda>x. \<not> isnan x) qs)"
    unfolding c using l by simp
  ultimately show ?thesis
    using q bin_counts_sum [OF assms] bin_counts_length [OF assms] l by simp
qed

theorem colors_out_aligned_and_counted_witness:
  "let qs = [Num 1, NaN, Num 7, Num 4, NaN];
       b = \<lparr>quantities = [1, 7, 4], colors_in = [''#111111'', ''#999999''],
          proportional = True, bin_min = 1, bin_max = 7, bin_mid = 4,
          decimals = None, fenceposts = [1, 4, 7],
          labels = [(1, 4), (4, 7)], fencepostlabels = [1, 4, 7],
          colors_out = [''#111111'', ''#999999'', ''#999999''],
          bin_counts = [1, 2], complements = None\<rparr>
   in Colorbin_init qs [''#111111'', ''#999999''] True (Some 1) = Inr b
      \<and> length (colors_out b) = length (filter (\<lambda>x. \<not> isnan x) qs)
      \<and> set (colors_out b) \<subseteq> set [''#111111'', ''#999999'']
      \<and> sum_list (bin_counts b) = length (filter (\<lambda>x. \<not> isnan x) qs)"
proof -
  let ?b = "\<lparr>quantities = [1, 7, 4], colors_in = [''#111111'', ''#999999''],
          proportional = True, bin_min = 1, bin_max = 7, bin_mid = 4,
          decimals = None, fenceposts = [1, 4, 7],
          labels = [(1, 4), (4, 7)], fencepostlabels = [1, 4, 7],
          colors_out = [''#111111'', ''#999999'', ''#999999''],
          bin_counts = [1, 2], complements = None\<rparr>"
  have h: "Colorbin_init [Num 1, NaN, Num 7, Num 4, NaN] [''#111111'', ''#999999''] True (Some 1)
           = Inr ?b"
    by code_simp
  show ?thesis unfolding Let_def using h colors_out_aligned_and_counted [OF h] by blast
qed






lemma index_mono: "i \<le> j \<Longrightarrow> i * n div P \<le> j * n div (P::nat)"
  by (intro div_le_mono mult_le_mono1)











text \<open>
  C10. With \<open>n \<ge> 1\<close> quantities and \<open>P \<ge> 1\<close> colours (also when \<open>P > n\<close>), the index
  \<open>int(i * (n / P))\<close> of the non-proportional loop is at least 0 and less than \<open>n\<close> for
  every \<open>i < P\<close>, so that \<open>_calc_fenceposts\<close> raises no \<open>IndexError\<close> and returns the
  object with new fenceposts.
\<close>

theorem quantile_index_in_range:
  assumes "quantities b \<noteq> []" and "colors_in b \<noteq> []"
  shows "(\<forall>i < length (colors_in b).
           0 \<le> py_int (of_nat i * (of_nat (length (quantities b)) / of_nat (length (colors_in b))))
           \<and> py_int (of_nat i * (of_nat (length (quantities b)) / of_nat (length (colors_in b))))
               < int (length (quantities b)))
       \<and> (\<exists>ps. quantile_posts (sort (quantities b))
                  (of_nat (length (quantities b)) / of_nat (length (colors_in b)))
                  [0..<length (colors_in b)] = Inr ps)
       \<and> (\<not> proportional b \<longrightarrow> (\<exists>ps. calc_fenceposts b = Inr (b\<lparr>fenceposts := ps\<rparr>)))"
proof (intro conjI allI impI)
  have P: "0 < length (colors_in b)" and n: "0 < length (quantities b)"
    using assms by simp_all
  fix i assume i: "i < length (colors_in b)"
  have "py_int (of_nat i * (of_nat (length (quantities b)) / of_nat (length (colors_in b))))
        = int (i * length (quantities b) div length (colors_in b))"
    using P by (rule py_int_index)
  moreover have "i * length (quantities b) div length (colors_in b) < length (quantities b)"
    using i n by (rule index_less)
  ultimately show
    "0 \<le> py_int (of_nat i * (of_nat (length (quantities b)) / of_nat (length (colors_in b))))"
    "py_int (of_nat i * (of_nat (length (quantities b)) / of_nat (length (colors_in b))))
       < int (length (quantities b))"
    by simp_all
next
  have P: "0 < length (colors_in b)" and n: "0 < length (sort (quantities b))"
    using assms by simp_all
  from quantile_posts_eq [OF P n, of "[0..<length (colors_in b)]"]
  show "\<exists>ps. quantile_posts (sort (quantities b))
                  (of_nat (length (quantities b)) / of_nat (length (colors_in b)))
                  [0..<length (colors_in b)] = Inr ps"
    by simp
next
  assume "\<not> proportional b"
  from calc_fenceposts_quantile [OF this assms(2,1)]
  show "\<exists>ps. calc_fenceposts b = Inr (b\<lparr>fenceposts := ps\<rparr>)" by blast
qed

theorem quantile_index_in_range_witness:
  "let b = \<lparr>quantities = [8, 3], colors_in = [''#111111'', ''#333333'', ''#555555'', ''#777777'', ''#999999''],
             proportional = False, bin_min = 3, bin_max = 8, bin_mid = 11 / 2,
             decimals = None, fenceposts = [], labels = [], fencepostlabels = [],
             colors_out = [], bin_counts = [], complements = None\<rparr>
   in quantities b \<noteq> [] \<and> colors_in b \<noteq> []
      \<and> py_int (of_nat 4 * (of_nat (length (quantities b)) / of_nat (length (colors_in b)))) = 1
      \<and> py_int (of_nat 4 * (of_nat (length (quantities b)) / of_nat (length (colors_in b))))
          < int (length (quantities b))
      \<and> calc_fenceposts b = Inr (b\<lparr>fenceposts := [3, 3, 3, 8, 8, 8]\<rparr>)"
proof -
  let ?b = "\<lparr>quantities = [8, 3], colors_in = [''#111111'', ''#333333'', ''#555555'', ''#777777'', ''#999999''],
             proportional = False, bin_min = 3, bin_max = 8, bin_mid = 11 / 2,
             decimals = None, fenceposts = [], labels = [], fencepostlabels = [],
             colors_out = [], bin_counts = [], complements = None\<rparr>"
  have a: "quantities ?b \<noteq> []" and c: "colors_in ?b \<noteq> []" by simp_all
  have four: "(4::nat) < length (colors_in ?b)" by simp
  have "py_int (of_nat 4 * (of_nat (length (quantities ?b)) / of_nat (length (colors_in ?b))))
          < int (length (quantities ?b))"
    using quantile_index_in_range [OF a c] four by blast
  moreover have
    "py_int (of_nat 4 * (of_nat (length (quantities ?b)) / of_nat (length (colors_in ?b)))) = 1"
    by code_simp
  moreover have "calc_fenceposts ?b = Inr (?b\<lparr>fenceposts := [3, 3, 3, 8, 8, 8]\<rparr>)"
    by code_simp
  ultimately show ?thesis unfolding Let_def using a c by blast
qed

text \<open>
  C5. The claim is that the constructor's argument \<open>decimals\<close> rounds the fenceposts at
  construction. The constructor does not read the argument: with \<open>decimals = 2\<close> the
  fencepost 3.14159 stays 3.14159 and the attribute is \<open>None\<close>; only \<open>set_decimals(2)\<close>
  followed by \<open>recalc()\<close> gives 3.14. The result of the constructor is the same for
  every value of the argument.
\<close>

theorem constructor_ignores_decimals:
  "Colorbin_init qs pal prop dec = Colorbin_init qs pal prop None
   \<and> (case Colorbin_init [Num (314159 / 100000), Num 10] [''#000000''] True (Some 2) of
         Inl e \<Rightarrow> False
       | Inr b \<Rightarrow>
           decimals b = None \<and> fenceposts b = [314159 / 100000, 10]
           \<and> (case recalc True (set_decimals (Some 2) b) of
                 Inl e \<Rightarrow> False
               | Inr b' \<Rightarrow> fenceposts b' = [314 / 100, 10]))"
proof
  show "Colorbin_init qs pal prop dec = Colorbin_init qs pal prop None"
    by (simp add: Colorbin_init_def)
  show "case Colorbin_init [Num (314159 / 100000), Num 10] [''#000000''] True (Some 2) of
         Inl e \<Rightarrow> False
       | Inr b \<Rightarrow>
           decimals b = None \<and> fenceposts b = [314159 / 100000, 10]
           \<and> (case recalc True (set_decimals (Some 2) b) of
                 Inl e \<Rightarrow> False
               | Inr b' \<Rightarrow> fenceposts b' = [314 / 100, 10])"
    by code_simp
qed

lemma hex_value_not_space: "hex_value c = Some v \<Longrightarrow> \<not> is_space c"
  by (auto simp: hex_value_def is_space_def Let_def split: if_splits)

lemma hex_value_not_mark:
  assumes "hex_value c = Some v"
  shows "c \<noteq> CHR ''-''" "c \<noteq> CHR ''+''" "c \<noteq> CHR ''_''" "c \<noteq> CHR ''x''" "c \<noteq> CHR ''X''"
proof -
  have "hex_value CHR ''-'' = None" "hex_value CHR ''+'' = None" "hex_value CHR ''_'' = None"
    "hex_value CHR ''x'' = None" "hex_value CHR ''X'' = None"
    by (simp_all add: hex_value_def)
  then show "c \<noteq> CHR ''-''" "c \<noteq> CHR ''+''" "c \<noteq> CHR ''_''" "c \<noteq> CHR ''x''" "c \<noteq> CHR ''X''"
    using assms by auto
qed

lemma py_int16_pair:
  assumes a: "hex_value a = Some x" and b: "hex_value b = Some y"
  shows "py_int16 [a, b] = Inr (int (16 * x + y))"
proof -
  have d: "dropWhile is_space [a, b] = [a, b]"
    using hex_value_not_space [OF a] by simp
  have s: "skip_sign [a, b] = (False, [a, b])"
    using hex_value_not_mark [OF a] by (simp add: skip_sign_def)
  have p: "skip_prefix [a, b] = [a, b]"
    using hex_value_not_mark [OF b] by (simp add: skip_prefix_def)
  show ?thesis
    unfolding py_int16_def d s by (simp add: p a b hex_value_not_mark [OF b])
qed

lemma py_int16_error: "py_int16 s = Inl e \<Longrightarrow> e = ValueError"
  by (auto simp: py_int16_def Let_def split: prod.splits list.splits option.splits if_splits)

lemma grey_error: "grey c = Inl e \<Longrightarrow> e = ValueError"
  by (auto simp: grey_def channel_def split: sum.splits dest: py_int16_error)

lemma is_hex_color_grey:
  assumes "is_hex_color c"
  shows "grey c = Inr (luminance c)"
proof -
  from assms have "length c = 7" by (simp add: is_hex_color_def)
  then obtain h a1 a2 a3 a4 a5 a6 where c: "c = [h, a1, a2, a3, a4, a5, a6]"
    by (auto simp: eval_nat_numeral length_Suc_conv)
  from assms obtain v1 v2 v3 v4 v5 v6 where
    v: "hex_value a1 = Some v1" "hex_value a2 = Some v2" "hex_value a3 = Some v3"
       "hex_value a4 = Some v4" "hex_value a5 = Some v5" "hex_value a6 = Some v6"
    unfolding c is_hex_color_def by auto
  have ch: "channel c 0 = Inr (int (16 * v1 + v2))" "channel c 2 = Inr (int (16 * v3 + v4))"
    "channel c 4 = Inr (int (16 * v5 + v6))"
    unfolding channel_def c using v by (simp_all add: py_int16_pair eval_nat_numeral)
  have hp: "hex_pair c 1 = 16 * v1 + v2" "hex_pair c 3 = 16 * v3 + v4"
    "hex_pair c 5 = 16 * v5 + v6"
    unfolding hex_pair_def c using v by (simp_all add: eval_nat_numeral)
  show ?thesis
    unfolding grey_def ch luminance_def hp by simp
qed

lemma complements_loop_ok:
  "complements_loop cutoff cb ca cs acc = Inr r \<Longrightarrow>
   length r = length acc + length cs
   \<and> take (length acc) r = acc
   \<and> (\<forall>k < length cs. \<exists>g. grey (cs ! k) = Inr g
          \<and> r ! (length acc + k) = (if g < cutoff then cb else ca))"
proof (induction cs arbitrary: acc)
  case Nil
  then show ?case by simp
next
  case (Cons c cs)
  from Cons.prems obtain g where g: "grey c = Inr g"
    and rec: "complements_loop cutoff cb ca cs
                (acc @ [if g < cutoff then cb else ca]) = Inr r"
    by (auto split: sum.splits)
  note IH = Cons.IH [OF rec]
  have len: "length r = length acc + length (c # cs)" using IH by simp
  have tk: "take (length acc + 1) r = acc @ [if g < cutoff then cb else ca]"
    using IH by simp
  have "take (length acc) (take (length acc + 1) r) = acc" unfolding tk by simp
  then have tk0: "take (length acc) r = acc" by (simp add: min_def)
  have r0: "r ! length acc = (if g < cutoff then cb else ca)"
  proof -
    have "take (length acc + 1) r ! length acc = r ! length acc" by simp
    then show ?thesis unfolding tk by simp
  qed
  have "\<forall>k < length (c # cs). \<exists>g. grey ((c # cs) ! k) = Inr g
          \<and> r ! (length acc + k) = (if g < cutoff then cb else ca)"
  proof (intro allI impI)
    fix k assume k: "k < length (c # cs)"
    show "\<exists>g. grey ((c # cs) ! k) = Inr g
          \<and> r ! (length acc + k) = (if g < cutoff then cb else ca)"
    proof (cases k)
      case 0
      then show ?thesis using g r0 by simp
    next
      case (Suc j)
      then have "j < length cs" using k by simp
      with IH obtain g' where "grey (cs ! j) = Inr g'"
        "r ! (length (acc @ [if g < cutoff then cb else ca]) + j)
           = (if g' < cutoff then cb else ca)"
        by blast
      then show ?thesis using Suc by simp
    qed
  qed
  then show ?case using len tk0 by blast
qed

lemma complements_loop_error:
  "complements_loop cutoff cb ca cs acc = Inl e \<Longrightarrow>
   e = ValueError \<and> (\<exists>c \<in> set cs. grey c = Inl ValueError)"
proof (induction cs arbitrary: acc)
  case Nil
  then show ?case by simp
next
  case (Cons c cs)
  show ?case
  proof (cases "grey c")
    case (Inl e')
    then have "e' = ValueError" by (rule grey_error)
    then show ?thesis using Cons.prems Inl by simp
  next
    case (Inr g)
    then have "complements_loop cutoff cb ca cs
                 (acc @ [if g < cutoff then cb else ca]) = Inl e"
      using Cons.prems by simp
    from Cons.IH [OF this] show ?thesis by simp
  qed
qed

lemma complements_loop_total:
  "\<forall>c \<in> set cs. \<exists>g. grey c = Inr g \<Longrightarrow>
   \<exists>r. complements_loop cutoff cb ca cs acc = Inr r"
proof (induction cs arbitrary: acc)
  case Nil
  then show ?case by simp
next
  case (Cons c cs)
  then obtain g where g: "grey c = Inr g" by auto
  have "\<exists>r. complements_loop cutoff cb ca cs
              (acc @ [if g < cutoff then cb else ca]) = Inr r"
    using Cons.prems by (intro Cons.IH) simp
  then show ?case using g by simp
qed




text \<open>
  C8, as stated: \<open>calc_complements\<close> fails if and only if some colour of \<open>colors_out\<close> is
  not a seven-character \<open>#RRGGBB\<close> value. The palette \<open>['#0000000']\<close> (eight characters)
  gives an object whose only output colour is not of that form, and
  \<open>calc_complements\<close> returns on it: the slices \<open>color[1:3]\<close>, \<open>color[3:5]\<close> and
  \<open>color[5:7]\<close> are all \<open>'00'\<close>.
\<close>

theorem malformed_color_accepted:
  "Colorbin_init [Num 1] [''#0000000''] True None =
     Inr \<lparr>quantities = [1], colors_in = [''#0000000''],
          proportional = True, bin_min = 1, bin_max = 1, bin_mid = 1,
          decimals = None, fenceposts = [1, 1],
          labels = [(1, 1)], fencepostlabels = [1, 1],
          colors_out = [''#0000000''], bin_counts = [1], complements = None\<rparr>
   \<and> \<not> is_hex_color ''#0000000''
   \<and> calc_complements (1 / 2) ''#ffffff'' ''#000000''
         \<lparr>quantities = [1], colors_in = [''#0000000''],
          proportional = True, bin_min = 1, bin_max = 1, bin_mid = 1,
          decimals = None, fenceposts = [1, 1],
          labels = [(1, 1)], fencepostlabels = [1, 1],
          colors_out = [''#0000000''], bin_counts = [1], complements = None\<rparr>
       = Inr \<lparr>quantities = [1], colors_in = [''#0000000''],
          proportional = True, bin_min = 1, bin_max = 1, bin_mid = 1,
          decimals = None, fenceposts = [1, 1],
          labels = [(1, 1)], fencepostlabels = [1, 1],
          colors_out = [''#0000000''], bin_counts = [1],
          complements = Some [''#ffffff'']\<rparr>"
  by code_simp

text \<open>
  C8, amended: \<open>calc_complements\<close> fails exactly when, for some colour of \<open>colors_out\<close>,
  one of the three two-character slices is not accepted by \<open>int(s, 16)\<close>; the failure is
  the \<open>ValueError\<close> of \<open>int\<close> (the specification's \<open>MalformedColorError\<close>). It fails
  therefore only if some colour of \<open>colors_out\<close> is not a seven-character \<open>#RRGGBB\<close>
  value, and never when all of them are.
\<close>

theorem complements_fail_only_on_malformed_color:
  "((\<exists>e. calc_complements cutoff cb ca b = Inl e) \<longleftrightarrow>
      (\<exists>c \<in> set (colors_out b). \<exists>i \<in> {0, 2, 4}. channel c i = Inl ValueError))
   \<and> (\<forall>e. calc_complements cutoff cb ca b = Inl e \<longrightarrow>
         e = ValueError \<and> (\<exists>c \<in> set (colors_out b). \<not> is_hex_color c))
   \<and> (list_all is_hex_color (colors_out b) \<longrightarrow>
         (\<exists>b'. calc_complements cutoff cb ca b = Inr b'))"
proof -
  have grey_fail: "grey c = Inl ValueError \<longleftrightarrow> (\<exists>i \<in> {0, 2, 4}. channel c i = Inl ValueError)"
    for c
  proof
    assume "grey c = Inl ValueError"
    then show "\<exists>i \<in> {0, 2, 4}. channel c i = Inl ValueError"
      by (auto simp: grey_def split: sum.splits)
  next
    assume "\<exists>i \<in> {0, 2, 4}. channel c i = Inl ValueError"
    then have "\<exists>e. grey c = Inl e"
      by (auto simp: grey_def split: sum.splits)
    then show "grey c = Inl ValueError" using grey_error by blast
  qed
  have E: "e = ValueError \<and> (\<exists>c \<in> set (colors_out b). grey c = Inl ValueError)"
    if "calc_complements cutoff cb ca b = Inl e" for e
  proof -
    from that have "complements_loop cutoff cb ca (colors_out b) [] = Inl e"
      by (auto simp: calc_complements_def split: sum.splits)
    then show ?thesis by (rule complements_loop_error)
  qed
  have T: "\<exists>b'. calc_complements cutoff cb ca b = Inr b'"
    if "\<forall>c \<in> set (colors_out b). \<exists>g. grey c = Inr g"
  proof -
    from complements_loop_total [OF that] obtain r where
      "complements_loop cutoff cb ca (colors_out b) [] = Inr r" by blast
    then show ?thesis by (simp add: calc_complements_def)
  qed
  have one: "(\<exists>e. calc_complements cutoff cb ca b = Inl e) \<longleftrightarrow>
      (\<exists>c \<in> set (colors_out b). \<exists>i \<in> {0, 2, 4}. channel c i = Inl ValueError)"
  proof
    assume "\<exists>e. calc_complements cutoff cb ca b = Inl e"
    then show "\<exists>c \<in> set (colors_out b). \<exists>i \<in> {0, 2, 4}. channel c i = Inl ValueError"
      using E grey_fail by blast
  next
    assume bad: "\<exists>c \<in> set (colors_out b). \<exists>i \<in> {0, 2, 4}. channel c i = Inl ValueError"
    show "\<exists>e. calc_complements cutoff cb ca b = Inl e"
    proof (cases "calc_complements cutoff cb ca b")
      case (Inl e)
      then show ?thesis by blast
    next
      case (Inr b')
      then obtain cs where l: "complements_loop cutoff cb ca (colors_out b) [] = Inr cs"
        by (auto simp: calc_complements_def split: sum.splits)
      from bad obtain c where c: "c \<in> set (colors_out b)" "grey c = Inl ValueError"
        using grey_fail by blast
      then obtain k where k: "k < length (colors_out b)" "colors_out b ! k = c"
        by (auto simp: in_set_conv_nth)
      from complements_loop_ok [OF l] k obtain g where "grey c = Inr g" by auto
      then show ?thesis using c(2) by simp
    qed
  qed
  have two: "e = ValueError \<and> (\<exists>c \<in> set (colors_out b). \<not> is_hex_color c)"
    if "calc_complements cutoff cb ca b = Inl e" for e
  proof -
    from E [OF that] obtain c where "e = ValueError" "c \<in> set (colors_out b)"
      "grey c = Inl ValueError" by blast
    moreover from this have "\<not> is_hex_color c" using is_hex_color_grey [of c] by auto
    ultimately show ?thesis by blast
  qed
  have three: "\<exists>b'. calc_complements cutoff cb ca b = Inr b'"
    if "list_all is_hex_color (colors_out b)"
  proof (rule T)
    show "\<forall>c \<in> set (colors_out b). \<exists>g. grey c = Inr g"
      using that is_hex_color_grey by (auto simp: list_all_iff)
  qed
  show ?thesis using one two three by blast
qed

theorem complements_fail_only_on_malformed_color_witness:
  "let b = \<lparr>quantities = [1], colors_in = [''#00''],
             proportional = True, bin_min = 1, bin_max = 1, bin_mid = 1,
             decimals = None, fenceposts = [1, 1],
             labels = [(1, 1)], fencepostlabels = [1, 1],
             colors_out = [''#00''], bin_counts = [1], complements = None\<rparr>
   in Colorbin_init [Num 1] [''#00''] True None = Inr b
      \<and> calc_complements (1 / 2) ''#ffffff'' ''#000000'' b = Inl ValueError
      \<and> channel ''#00'' 2 = Inl ValueError
      \<and> (\<exists>c \<in> set (colors_out b). \<not> is_hex_color c)"
proof -
  let ?b = "\<lparr>quantities = [1], colors_in = [''#00''],
             proportional = True, bin_min = 1, bin_max = 1, bin_mid = 1,
             decimals = None, fenceposts = [1, 1],
             labels = [(1, 1)], fencepostlabels = [1, 1],
             colors_out = [''#00''], bin_counts = [1], complements = None\<rparr>"
  have h: "Colorbin_init [Num 1] [''#00''] True None = Inr ?b" by code_simp
  have f: "calc_complements (1 / 2) ''#ffffff'' ''#000000'' ?b = Inl ValueError" by code_simp
  have c: "channel ''#00'' 2 = Inl ValueError" by code_simp
  show ?thesis
    unfolding Let_def
    using h f c complements_fail_only_on_malformed_color [of "1 / 2" "''#ffffff''" "''#000000''" ?b]
    by blast
qed

lemma index_step:
  assumes "0 < P"
  shows "(j + 1) * n div P = j * n div P + n div P
       \<or> (j + 1) * n div P = j * n div P + n div P + (1::nat)"
proof -
  define r where "r = j * n mod P + n mod P"
  have "(j * n + n) div P = j * n div P + n div P + r div P"
    unfolding r_def by (rule div_add1_eq)
  moreover have "(j + 1) * n = j * n + n" by simp
  ultimately have e: "(j + 1) * n div P = j * n div P + n div P + r div P"
    by (simp only:)
  have "j * n mod P < P" "n mod P < P" using assms by simp_all
  then have "r < 2 * P" unfolding r_def by linarith
  then have "r div P < 2" by (rule less_mult_imp_div_less)
  then have "r div P = 0 \<or> r div P = 1" by linarith
  then show ?thesis
  proof
    assume "r div P = 0"
    then show ?thesis using e by simp
  next
    assume "r div P = 1"
    then show ?thesis using e by simp
  qed
qed

lemma index_strict:
  assumes "0 < P" "P \<le> n"
  shows "j * n div P < (j + 1) * n div (P::nat)"
proof -
  have "1 \<le> n div P" using assms by (simp add: div_greater_zero_iff Suc_le_eq)
  then show ?thesis using index_step [OF assms(1), of j n] by linarith
qed

lemma index_strict_mono:
  assumes "0 < P" "P \<le> n" "i < j"
  shows "i * n div P < j * n div (P::nat)"
proof -
  have "i * n div P < (i + 1) * n div P" using assms(1,2) by (rule index_strict)
  also have "\<dots> \<le> j * n div P" using assms(3) by (intro index_mono) simp
  finally show ?thesis .
qed

lemma index_full: "0 < P \<Longrightarrow> P * n div P = (n::nat)"
  by simp

lemma strict_sorted_nth_le:
  assumes "sorted (s :: rat list)" "distinct s" "m < length s" "k < length s"
  shows "s ! m \<le> s ! k \<longleftrightarrow> m \<le> k"
proof
  assume le: "s ! m \<le> s ! k"
  show "m \<le> k"
  proof (rule ccontr)
    assume "\<not> m \<le> k"
    then have km: "k < m" by simp
    then have "s ! k \<le> s ! m" using assms(1,3) by (intro sorted_nth_mono) simp_all
    with le have "s ! k = s ! m" by simp
    then have "k = m" using assms(2,3,4) by (simp add: nth_eq_iff_index_eq)
    then show False using km by simp
  qed
next
  assume "m \<le> k"
  then show "s ! m \<le> s ! k" using assms(1,4) by (intro sorted_nth_mono)
qed

lemma quantile_bin_of_sorted:
  assumes srt: "sorted (s :: rat list)" and dst: "distinct s"
    and P: "0 < P" and Pn: "P \<le> length s"
    and fps: "\<And>i. i < P \<Longrightarrow> fps ! i = s ! (i * length s div P)"
    and k: "k < length s" and j: "j < P"
  shows "spec_bin fps P (s ! k) = j \<longleftrightarrow>
         j * length s div P \<le> k \<and> k < (j + 1) * length s div P"
proof -
  let ?n = "length s"
  let ?B = "spec_bin fps P (s ! k)"
  have n: "0 < ?n" using k by linarith
  have B: "?B < P" using P by (rule spec_bin_less)
  have hit: "fps ! i \<le> s ! k \<longleftrightarrow> i * ?n div P \<le> k" if "i < P" for i
  proof -
    have "i * ?n div P < ?n" using that n by (rule index_less)
    then show ?thesis unfolding fps [OF that] using srt dst k by (intro strict_sorted_nth_le)
  qed
  have low: "?B * ?n div P \<le> k"
  proof (cases "?B = 0")
    case True
    then show ?thesis by simp
  next
    case False
    then have "fps ! ?B \<le> s ! k" by (rule spec_bin_hit)
    then show ?thesis using hit [OF B] by simp
  qed
  have great: "i \<le> ?B" if "i < P" "i * ?n div P \<le> k" for i
  proof (cases "i = 0")
    case True
    then show ?thesis by simp
  next
    case False
    then have "1 \<le> i" by simp
    moreover have "fps ! i \<le> s ! k" using hit [OF that(1)] that(2) by simp
    ultimately show ?thesis using that(1) by (intro spec_bin_greatest)
  qed
  show ?thesis
  proof
    assume e: "?B = j"
    have "k < (j + 1) * ?n div P"
    proof (cases "j + 1 < P")
      case True
      show ?thesis
      proof (rule ccontr)
        assume "\<not> k < (j + 1) * ?n div P"
        then have "j + 1 \<le> ?B" using True by (intro great) simp_all
        then show False using e by simp
      qed
    next
      case False
      then have "j + 1 = P" using j by simp
      then show ?thesis using k P by simp
    qed
    then show "j * ?n div P \<le> k \<and> k < (j + 1) * ?n div P" using low e by simp
  next
    assume a: "j * ?n div P \<le> k \<and> k < (j + 1) * ?n div P"
    then have jB: "j \<le> ?B" using j by (intro great) simp_all
    have "\<not> j < ?B"
    proof
      assume "j < ?B"
      then have "j + 1 \<le> ?B" by simp
      then have "(j + 1) * ?n div P \<le> ?B * ?n div P" by (rule index_mono)
      then show False using low a by simp
    qed
    then show "?B = j" using jB by simp
  qed
qed

lemma quantile_bin_count:
  assumes srt: "sorted (s :: rat list)" and dst: "distinct s"
    and P: "0 < P" and Pn: "P \<le> length s"
    and fps: "\<And>i. i < P \<Longrightarrow> fps ! i = s ! (i * length s div P)"
    and j: "j < P"
  shows "length (filter (\<lambda>q. spec_bin fps P q = j) s)
         = (j + 1) * length s div P - j * length s div P"
proof -
  let ?n = "length s"
  have up: "(j + 1) * ?n div P \<le> ?n"
  proof -
    have "(j + 1) * ?n div P \<le> P * ?n div P" using j by (intro index_mono) simp
    then show ?thesis using P by simp
  qed
  have "{k. k < ?n \<and> spec_bin fps P (s ! k) = j} = {j * ?n div P ..< (j + 1) * ?n div P}"
  proof (rule set_eqI)
    fix k
    show "k \<in> {k. k < ?n \<and> spec_bin fps P (s ! k) = j}
          \<longleftrightarrow> k \<in> {j * ?n div P ..< (j + 1) * ?n div P}"
    proof (cases "k < ?n")
      case True
      then show ?thesis
        using quantile_bin_of_sorted [OF srt dst P Pn fps True j] by simp
    next
      case False
      then show ?thesis using up by simp
    qed
  qed
  then show ?thesis by (simp add: length_filter_conv_card)
qed

lemma filter_length_sort:
  assumes "distinct (xs :: rat list)"
  shows "length (filter Q (sort xs)) = length (filter Q xs)"
proof -
  have "length (filter Q (sort xs)) = card ({x. Q x} \<inter> set (sort xs))"
    using assms by (intro distinct_length_filter) simp
  also have "\<dots> = card ({x. Q x} \<inter> set xs)" by simp
  also have "\<dots> = length (filter Q xs)"
    using assms by (rule distinct_length_filter [symmetric])
  finally show ?thesis .
qed

text \<open>
  C9. In non-proportional mode, for \<open>n\<close> pairwise distinct quantities and a palette of
  \<open>P\<close> colours with \<open>1 \<le> P \<le> n\<close>, every bin's count is \<open>floor(n / P)\<close> or
  \<open>floor(n / P) + 1\<close>.
\<close>

theorem quantile_bin_counts_balanced:
  assumes init: "Colorbin_init qs pal False dec = Inr b"
    and dst: "distinct (quantities b)"
    and Pn: "length pal \<le> length (quantities b)"
  shows "\<forall>j < length pal.
           bin_counts b ! j = length (quantities b) div length pal
         \<or> bin_counts b ! j = length (quantities b) div length pal + 1"
proof (intro allI impI)
  fix j assume j: "j < length pal"
  note I = Colorbin_init_Inr [OF init]
  let ?s = "sort (quantities b)" and ?P = "length pal" and ?n = "length (quantities b)"
  have P: "0 < ?P" using I(12) by simp
  have F: "fenceposts b = map (\<lambda>i. ?s ! (i * ?n div ?P)) [0..<?P] @ [last ?s]"
    using I(8) by simp
  have fps: "fenceposts b ! i = ?s ! (i * length ?s div ?P)" if "i < ?P" for i
    unfolding F using that by (simp add: nth_append)
  have "bin_counts b ! j =
        length (filter (\<lambda>q. spec_bin (fenceposts b) ?P q = j) (quantities b))"
    using init j by (rule bin_counts_nth)
  also have "\<dots> = length (filter (\<lambda>q. spec_bin (fenceposts b) ?P q = j) ?s)"
    using dst by (rule filter_length_sort [symmetric])
  also have "\<dots> = (j + 1) * length ?s div ?P - j * length ?s div ?P"
    using Pn dst by (intro quantile_bin_count P fps j) simp_all
  finally have c: "bin_counts b ! j = (j + 1) * ?n div ?P - j * ?n div ?P" by simp
  show "bin_counts b ! j = ?n div ?P \<or> bin_counts b ! j = ?n div ?P + 1"
    unfolding c using index_step [OF P, of j ?n] by linarith
qed

theorem quantile_bin_counts_balanced_witness:
  "let pal = [''#111111'', ''#555555'', ''#999999''];
       b = \<lparr>quantities = [4, 1, 9, 2, 7],
            colors_in = [''#111111'', ''#555555'', ''#999999''],
            proportional = False, bin_min = 1, bin_max = 9, bin_mid = 5,
            decimals = None, fenceposts = [1, 2, 7, 9],
            labels = [(1, 2), (2, 7), (7, 9)], fencepostlabels = [1, 2, 7, 9],
            colors_out = [''#555555'', ''#111111'', ''#999999'', ''#555555'', ''#999999''],
            bin_counts = [1, 2, 2], complements = None\<rparr>
   in Colorbin_init [Num 4, NaN, Num 1, Num 9, Num 2, Num 7] pal False None = Inr b
      \<and> distinct (quantities b) \<and> length pal \<le> length (quantities b)
      \<and> bin_counts b = [1, 2, 2] \<and> length (quantities b) div length pal = 1
      \<and> (bin_counts b ! 0 = length (quantities b) div length pal
         \<or> bin_counts b ! 0 = length (quantities b) div length pal + 1)
      \<and> (bin_counts b ! 2 = length (quantities b) div length pal
         \<or> bin_counts b ! 2 = length (quantities b) div length pal + 1)"
proof -
  let ?pal = "[''#111111'', ''#555555'', ''#999999'']"
  let ?b = "\<lparr>quantities = [4, 1, 9, 2, 7],
            colors_in = [''#111111'', ''#555555'', ''#999999''],
            proportional = False, bin_min = 1, bin_max = 9, bin_mid = 5,
            decimals = None, fenceposts = [1, 2, 7, 9],
            labels = [(1, 2), (2, 7), (7, 9)], fencepostlabels = [1, 2, 7, 9],
            colors_out = [''#555555'', ''#111111'', ''#999999'', ''#555555'', ''#999999''],
            bin_counts = [1, 2, 2], complements = None\<rparr>"
  have h: "Colorbin_init [Num 4, NaN, Num 1, Num 9, Num 2, Num 7] ?pal False None = Inr ?b"
    by code_simp
  have d: "distinct (quantities ?b)" and l: "length ?pal \<le> length (quantities ?b)" by simp_all
  have z: "(0::nat) < length ?pal" and t: "(2::nat) < length ?pal" by simp_all
  have e: "bin_counts ?b = [1, 2, 2]" "length (quantities ?b) div length ?pal = 1" by simp_all
  note w = quantile_bin_counts_balanced [OF h d l]
  from w z have "bin_counts ?b ! 0 = length (quantities ?b) div length ?pal
         \<or> bin_counts ?b ! 0 = length (quantities ?b) div length ?pal + 1" by blast
  moreover from w t have "bin_counts ?b ! 2 = length (quantities ?b) div length ?pal
         \<or> bin_counts ?b ! 2 = length (quantities ?b) div length ?pal + 1" by blast
  ultimately show ?thesis unfolding Let_def using h d l e by blast
qed

end
